theory Spec2Isabelle
  imports Complex_Main "HOL-Library.Multiset"
begin

section \<open>Python exceptions\<close>

text \<open>
  The three scripts define no exception class of their own. What they can raise are the
  built-in exceptions of the interpreter: an out-of-range list read (IndexError), the
  minimum or maximum of an empty sequence (ValueError), and arithmetic on \<open>None\<close>
  (TypeError).
\<close>

datatype error = IndexError | ValueError | TypeError

text \<open>A list read \<open>xs[i]\<close> at a non-negative index.\<close>

definition getitem :: "'a list \<Rightarrow> nat \<Rightarrow> error + 'a" where
  "getitem xs i = (if i < length xs then Inr (xs ! i) else Inl IndexError)"

text \<open>The read \<open>xs[-1]\<close> of the last element.\<close>

definition getlast :: "'a list \<Rightarrow> error + 'a" where
  "getlast xs = (if xs = [] then Inl IndexError else Inr (last xs))"

section \<open>forward\_hop.py: the hop function\<close>

text \<open>
  \<open>eval_hop_function(ts, rxncenter)\<close> keeps two lists: \<open>hts\<close>, the values of the hop
  function so far, and \<open>pdonor\<close>, the donors recorded so far. Reaction centers are the
  integers read from the simulation output.
\<close>

record hop_state =
  hts :: "int list"
  pdonor :: "int list"

text \<open>The state before the loop: \<open>hts = [0]\<close> and \<open>pdonor = [0]\<close>.\<close>

definition hop_init :: hop_state where
  "hop_init = \<lparr>hts = [0], pdonor = [0]\<rparr>"

text \<open>
  The classification of one transition: \<open>val\<close> and the donor list after it, from the
  previous center, the current center and the donor list before it.
\<close>

definition hop_val :: "int \<Rightarrow> int \<Rightarrow> int list \<Rightarrow> error + (int \<times> int list)" where
  "hop_val pcenter ccenter pd =
     (if pcenter = ccenter then Inr (0, pd)
      else (case getlast pd of
              Inl e \<Rightarrow> Inl e
            | Inr d \<Rightarrow> (if ccenter = d then Inr (- 1, pd)
                        else Inr (1, pd @ [pcenter]))))"

text \<open>The body of the loop at index \<open>i\<close> (\<open>i \<ge> 1\<close>).\<close>

definition hop_body :: "int list \<Rightarrow> nat \<Rightarrow> hop_state \<Rightarrow> error + hop_state" where
  "hop_body rxncenter i s =
     (case getitem rxncenter (i - 1) of
        Inl e \<Rightarrow> Inl e
      | Inr pcenter \<Rightarrow>
     (case getitem rxncenter i of
        Inl e \<Rightarrow> Inl e
      | Inr ccenter \<Rightarrow>
     (case hop_val pcenter ccenter (pdonor s) of
        Inl e \<Rightarrow> Inl e
      | Inr (val, pd) \<Rightarrow>
     (case getitem (hts s) (i - 1) of
        Inl e \<Rightarrow> Inl e
      | Inr h \<Rightarrow> Inr \<lparr>hts = hts s @ [h + val], pdonor = pd\<rparr>))))"

text \<open>The loop over a list of indices; an exception ends it.\<close>

fun hop_loop :: "int list \<Rightarrow> nat list \<Rightarrow> hop_state \<Rightarrow> error + hop_state" where
  "hop_loop rxncenter [] s = Inr s"
| "hop_loop rxncenter (i # is) s =
     (case hop_body rxncenter i s of
        Inl e \<Rightarrow> Inl e
      | Inr s' \<Rightarrow> hop_loop rxncenter is s')"

text \<open>The state once the frames \<open>1, ..., t\<close> have been processed.\<close>

definition hop_state_at :: "int list \<Rightarrow> nat \<Rightarrow> error + hop_state" where
  "hop_state_at rxncenter t = hop_loop rxncenter [1..<Suc t] hop_init"

text \<open>The function: \<open>for i in range(1, len(ts))\<close>, then \<open>return hts\<close>.\<close>

definition eval_hop_function :: "int list \<Rightarrow> int list \<Rightarrow> error + int list" where
  "eval_hop_function ts rxncenter =
     (case hop_loop rxncenter [1..<length ts] hop_init of
        Inl e \<Rightarrow> Inl e
      | Inr s \<Rightarrow> Inr (hts s))"

section \<open>civec\_pdf.py: the two largest CI coefficients\<close>

text \<open>
  The script is written for Python 2 (it imports \<open>print_function\<close> and \<open>division\<close> from
  \<open>__future__\<close>), where \<open>None\<close> may be compared with a number and is below every number.
  \<open>second_largest\<close> starts from \<open>m1, m2 = None, None\<close> and relies on that order: \<open>x >= None\<close>
  and \<open>x > None\<close> both hold. The two running values are therefore optional numbers.
\<close>

definition ge_none :: "real \<Rightarrow> real option \<Rightarrow> bool" where
  "ge_none x m = (case m of None \<Rightarrow> True | Some y \<Rightarrow> x \<ge> y)"

definition gt_none :: "real \<Rightarrow> real option \<Rightarrow> bool" where
  "gt_none x m = (case m of None \<Rightarrow> True | Some y \<Rightarrow> x > y)"

text \<open>The body of the loop of \<open>second_largest\<close>, on the pair \<open>(m1, m2)\<close>.\<close>

definition second_largest_step ::
    "real option \<times> real option \<Rightarrow> real \<Rightarrow> real option \<times> real option" where
  "second_largest_step s x =
     (case s of (m1, m2) \<Rightarrow>
        if ge_none x m1 then (Some x, m1)
        else if gt_none x m2 then (m1, Some x)
        else (m1, m2))"

definition second_largest :: "real list \<Rightarrow> real option" where
  "second_largest numbers = snd (foldl second_largest_step (None, None) numbers)"

text \<open>
  The built-in \<open>max\<close>: ValueError on an empty sequence, otherwise the first element, replaced
  by each later element that is greater than the current maximum.
\<close>

definition py_max :: "real list \<Rightarrow> error + real" where
  "py_max xs =
     (case xs of
        [] \<Rightarrow> Inl ValueError
      | x # ys \<Rightarrow> Inr (foldl (\<lambda>m y. if y > m then y else m) x ys))"

text \<open>
  One pass of the loop over the frames: \<open>l = max(i)\<close>, \<open>l2 = second_largest(i)\<close>, and the
  two squares \<open>l*l\<close> and \<open>l2*l2\<close>. The product \<open>None * None\<close> is a TypeError.
\<close>

definition ci_frame :: "real list \<Rightarrow> error + (real \<times> real)" where
  "ci_frame i =
     (case py_max i of
        Inl e \<Rightarrow> Inl e
      | Inr l \<Rightarrow>
          (case second_largest i of
             None \<Rightarrow> Inl TypeError
           | Some l2 \<Rightarrow> Inr (l * l, l2 * l2)))"

text \<open>The loop: the arrays \<open>first\<close> and \<open>second\<close> grow by one entry per frame.\<close>

fun ci_loop :: "real list list \<Rightarrow> real list \<times> real list \<Rightarrow> error + (real list \<times> real list)" where
  "ci_loop [] acc = Inr acc"
| "ci_loop (i # rest) acc =
     (case ci_frame i of
        Inl e \<Rightarrow> Inl e
      | Inr (a, b) \<Rightarrow> ci_loop rest (fst acc @ [a], snd acc @ [b]))"

definition ci_squares :: "real list list \<Rightarrow> error + (real list \<times> real list)" where
  "ci_squares tmp = ci_loop tmp ([], [])"

text \<open>
  The largest and the second-largest entry of a vector: the first and the second entry of
  the vector sorted in descending order (both are the same number when the largest entry
  occurs twice).
\<close>

definition largest :: "real list \<Rightarrow> real" where
  "largest xs = rev (sort xs) ! 0"

definition second_entry :: "real list \<Rightarrow> real" where
  "second_entry xs = rev (sort xs) ! 1"

section \<open>civec\_pdf.py: the free energy\<close>

subsection \<open>Floating-point values\<close>

text \<open>
  The entries of a numpy array of floats are finite numbers, the two infinities, or NaN.
  Finite values are taken as real numbers here (rounding is left out); the other three are
  kept, since numpy's \<open>log\<close> returns them instead of raising: \<open>log(0.0)\<close> is \<open>-inf\<close> and
  the logarithm of a negative number is \<open>nan\<close>, each with a warning only.
\<close>

datatype npfloat = Num real | PosInf | NegInf | NaN

definition np_log :: "real \<Rightarrow> npfloat" where
  "np_log x = (if 0 < x then Num (ln x) else if x = 0 then NegInf else NaN)"

text \<open>The product of a finite Python float and an array entry.\<close>

fun np_scale :: "real \<Rightarrow> npfloat \<Rightarrow> npfloat" where
  "np_scale c (Num a) = Num (c * a)"
| "np_scale c PosInf = (if 0 < c then PosInf else if c < 0 then NegInf else NaN)"
| "np_scale c NegInf = (if 0 < c then NegInf else if c < 0 then PosInf else NaN)"
| "np_scale c NaN = NaN"

fun np_neg :: "npfloat \<Rightarrow> npfloat" where
  "np_neg (Num a) = Num (- a)"
| "np_neg PosInf = NegInf"
| "np_neg NegInf = PosInf"
| "np_neg NaN = NaN"

fun np_add :: "npfloat \<Rightarrow> npfloat \<Rightarrow> npfloat" where
  "np_add (Num a) (Num b) = Num (a + b)"
| "np_add NaN v = NaN"
| "np_add v NaN = NaN"
| "np_add PosInf NegInf = NaN"
| "np_add NegInf PosInf = NaN"
| "np_add PosInf v = PosInf"
| "np_add v PosInf = PosInf"
| "np_add NegInf v = NegInf"
| "np_add v NegInf = NegInf"

text \<open>The comparison \<open><\<close>: false as soon as one side is NaN.\<close>

fun np_less :: "npfloat \<Rightarrow> npfloat \<Rightarrow> bool" where
  "np_less (Num a) (Num b) = (a < b)"
| "np_less NaN v = False"
| "np_less v NaN = False"
| "np_less NegInf NegInf = False"
| "np_less NegInf v = True"
| "np_less v NegInf = False"
| "np_less PosInf v = False"
| "np_less v PosInf = True"

fun np_isfinite :: "npfloat \<Rightarrow> bool" where
  "np_isfinite (Num a) = True"
| "np_isfinite v = False"

text \<open>
  The built-in \<open>min\<close> over an array: ValueError on an empty one, otherwise the first entry,
  replaced by each later entry that is less than the current minimum.
\<close>

definition np_min :: "npfloat list \<Rightarrow> error + npfloat" where
  "np_min xs =
     (case xs of
        [] \<Rightarrow> Inl ValueError
      | x # ys \<Rightarrow> Inr (foldl (\<lambda>m y. if np_less y m then y else m) x ys))"

subsection \<open>The grid\<close>

text \<open>
  \<open>linspace(start, stop, num)\<close> of numpy: \<open>num\<close> evenly spaced points from \<open>start\<close> to
  \<open>stop\<close>, both included; a single point is \<open>start\<close>; the last point is set to \<open>stop\<close>.
  With \<open>num\<close> at or below 0 the grid is empty (later versions of numpy raise ValueError for a
  negative \<open>num\<close>; the free energy then ends in the same exception, raised by \<open>min\<close>).
\<close>

definition linspace :: "real \<Rightarrow> real \<Rightarrow> int \<Rightarrow> real list" where
  "linspace start stop num =
     (if num \<le> 0 then []
      else if num = 1 then [start]
      else (map (\<lambda>i. real i * ((stop - start) / real_of_int (num - 1)) + start)
              [0..<nat num]) [nat num - 1 := stop])"

subsection \<open>The free energy\<close>

text \<open>The Boltzmann constant in J/K, \<open>1.3806488e-23\<close>, and in kcal/mol per K.\<close>

definition kb :: real where
  "kb = 13806488 / 10 ^ 30"

definition kb_kcal :: real where
  "kb_kcal = kb / (69477 / 10 ^ 25)"

text \<open>The value \<open>-kb_kcal*300.0*log(p)\<close> for a density value \<open>p\<close>.\<close>

definition fe_val :: "real \<Rightarrow> npfloat" where
  "fe_val p = np_scale (- kb_kcal * 300) (np_log p)"

text \<open>The value appended for the grid point \<open>i\<close> when only \<open>genfed\<close> is set.\<close>

definition fed_val :: "(real \<Rightarrow> real) \<Rightarrow> (real \<Rightarrow> real) \<Rightarrow> real \<Rightarrow> npfloat" where
  "fed_val pdf3 pdf4 i =
     (if i < - (4 / 100) then fe_val (pdf4 i)
      else if i > 4 / 100 then fe_val (pdf3 i)
      else Num 0)"

text \<open>
  The array \<open>free_energy\<close> before the shift. The estimator \<open>gaussian_kde\<close> of scipy is a
  parameter: it takes the samples and returns the density function. \<open>first\<close> and \<open>second\<close>
  are the two arrays of squares. The branch is the one of the script: \<open>genfe\<close> first, and
  otherwise the difference mode (the code is reached when \<open>genfe\<close> or \<open>genfed\<close> is set).
\<close>

definition fe_array ::
    "(real list \<Rightarrow> real \<Rightarrow> real) \<Rightarrow> bool \<Rightarrow> real list \<Rightarrow> real list \<Rightarrow> int \<Rightarrow> npfloat list" where
  "fe_array gaussian_kde genfe first second nbins =
     (if genfe then
        map (\<lambda>i. fe_val (gaussian_kde first i)) (linspace 0 1 nbins)
      else
        map (fed_val (gaussian_kde (map2 (-) first second))
                     (gaussian_kde (map2 (-) second first)))
            (linspace (- 1) 1 (2 * nbins)))"

text \<open>The shift of the zero point: \<open>minfe = min(free_energy)\<close>, \<open>free_energy += -minfe\<close>.\<close>

definition shift_zero :: "npfloat list \<Rightarrow> error + npfloat list" where
  "shift_zero fe =
     (case np_min fe of
        Inl e \<Rightarrow> Inl e
      | Inr minfe \<Rightarrow> Inr (map (\<lambda>v. np_add v (np_neg minfe)) fe))"

definition free_energy ::
    "(real list \<Rightarrow> real \<Rightarrow> real) \<Rightarrow> bool \<Rightarrow> real list \<Rightarrow> real list \<Rightarrow> int
       \<Rightarrow> error + npfloat list" where
  "free_energy gaussian_kde genfe first second nbins =
     shift_zero (fe_array gaussian_kde genfe first second nbins)"

section \<open>hendersonhasselbalch.py: fractions of species\<close>

text \<open>The two acid constants, \<open>3.54e-4\<close> and \<open>4.69e-11\<close>.\<close>

definition ka1 :: real where
  "ka1 = 354 / 10 ^ 6"

definition ka2 :: real where
  "ka2 = 469 / 10 ^ 13"

text \<open>The three quotients \<open>tmp1\<close>, \<open>tmp2\<close> and \<open>tmp3\<close> of the loop body.\<close>

definition species :: "real \<Rightarrow> real \<Rightarrow> real \<Rightarrow> real \<times> real \<times> real" where
  "species h3o k1 k2 =
     (h3o * h3o / (h3o * h3o + h3o * k1 + k1 * k2),
      h3o * k1 / (h3o * h3o + h3o * k1 + k1 * k2),
      k1 * k2 / (h3o * h3o + h3o * k1 + k1 * k2))"

text \<open>The loop body at one pH value: \<open>h3o = 10**(-ph)\<close>.\<close>

definition hh_fractions :: "real \<Rightarrow> real \<times> real \<times> real" where
  "hh_fractions ph = species (10 powr (- ph)) ka1 ka2"

section \<open>The hop function: proofs\<close>

text \<open>The definitions that a run on a concrete trajectory unfolds.\<close>

lemmas hop_eval = eval_hop_function_def hop_state_at_def hop_body_def hop_val_def hop_init_def
      getitem_def getlast_def

lemma hop_loop_append:
  "hop_loop c (xs @ ys) s =
     (case hop_loop c xs s of Inl e \<Rightarrow> Inl e | Inr s' \<Rightarrow> hop_loop c ys s')"
  by (induction xs arbitrary: s) (auto split: sum.splits)

lemma hop_state_at_0: "hop_state_at c 0 = Inr hop_init"
  by (simp add: hop_state_at_def)

lemma hop_state_at_Suc:
  "hop_state_at c (Suc t) =
     (case hop_state_at c t of Inl e \<Rightarrow> Inl e | Inr s \<Rightarrow> hop_body c (Suc t) s)"
proof -
  have "[1..<Suc (Suc t)] = [1..<Suc t] @ [Suc t]" by simp
  then show ?thesis
    unfolding hop_state_at_def by (simp only: hop_loop_append) (simp split: sum.splits)
qed

lemma hop_val_total:
  "pd \<noteq> [] \<Longrightarrow> \<exists>v pd'. hop_val p c pd = Inr (v, pd') \<and> pd' \<noteq> []"
  by (simp add: hop_val_def getlast_def)

lemma hop_body_ok:
  assumes "Suc t < length c" "length (hts s) = Suc t" "pdonor s \<noteq> []"
  shows "\<exists>v pd. hop_val (c ! t) (c ! Suc t) (pdonor s) = Inr (v, pd) \<and> pd \<noteq> [] \<and>
           hop_body c (Suc t) s = Inr \<lparr>hts = hts s @ [last (hts s) + v], pdonor = pd\<rparr>"
proof -
  from hop_val_total [OF assms(3)] obtain v pd
    where v: "hop_val (c ! t) (c ! Suc t) (pdonor s) = Inr (v, pd)" "pd \<noteq> []" by blast
  have l: "hts s ! t = last (hts s)"
    using assms(2) by (metis diff_Suc_1 last_conv_nth length_0_conv nat.distinct(1))
  show ?thesis using v assms l
    by (simp add: hop_body_def getitem_def)
qed

lemma hop_state_at_inv:
  "t < length c \<Longrightarrow> \<exists>s. hop_state_at c t = Inr s \<and> length (hts s) = Suc t \<and> pdonor s \<noteq> []"
proof (induction t)
  case 0
  then show ?case by (simp add: hop_state_at_0 hop_init_def)
next
  case (Suc t)
  then obtain s where s: "hop_state_at c t = Inr s" "length (hts s) = Suc t" "pdonor s \<noteq> []"
    by auto
  from hop_body_ok [OF Suc.prems s(2) s(3)] s(1) s(2) show ?case
    by (auto simp: hop_state_at_Suc)
qed

text \<open>One transition, from the state after frame t to the state after frame t + 1.\<close>

lemma hop_step:
  assumes "Suc t < length c" "hop_state_at c t = Inr s"
  shows "\<exists>v pd. hop_val (c ! t) (c ! Suc t) (pdonor s) = Inr (v, pd) \<and>
           hop_state_at c (Suc t) = Inr \<lparr>hts = hts s @ [last (hts s) + v], pdonor = pd\<rparr>"
proof -
  from assms(1) have "t < length c" by simp
  from hop_state_at_inv [OF this] assms(2)
  have s: "length (hts s) = Suc t" "pdonor s \<noteq> []" by auto
  from hop_body_ok [OF assms(1) s] assms(2) show ?thesis
    by (auto simp: hop_state_at_Suc)
qed

text \<open>The values already written are never changed: the list only grows.\<close>

lemma hop_body_hts:
  "hop_body c i s = Inr s' \<Longrightarrow> \<exists>x. hts s' = hts s @ [x]"
  by (auto simp: hop_body_def split: sum.splits prod.splits)

lemma hop_loop_hts:
  "hop_loop c is s = Inr s' \<Longrightarrow> \<exists>zs. hts s' = hts s @ zs"
proof (induction "is" arbitrary: s)
  case Nil
  then show ?case by simp
next
  case (Cons i "is")
  then obtain s1 where s1: "hop_body c i s = Inr s1" "hop_loop c is s1 = Inr s'"
    by (auto split: sum.splits)
  from hop_body_hts [OF s1(1)] Cons.IH [OF s1(2)] show ?case by auto
qed

lemma hop_state_at_nth:
  assumes "n < length c" "t \<le> n" "hop_state_at c n = Inr sn" "hop_state_at c t = Inr st"
  shows "hts sn ! t = last (hts st)"
proof -
  have "[1..<Suc n] = [1..<Suc t] @ [Suc t..<Suc n]"
    using assms(2) upt_add_eq_append [of 1 "Suc t" "n - t"] by simp
  then have "hop_loop c [Suc t..<Suc n] st = Inr sn"
    using assms(3,4) by (simp add: hop_state_at_def hop_loop_append)
  from hop_loop_hts [OF this] obtain zs where zs: "hts sn = hts st @ zs" by blast
  from assms have "t < length c" by simp
  from hop_state_at_inv [OF this] assms(4) have l: "length (hts st) = Suc t" by auto
  then have "hts st \<noteq> []" by auto
  with l zs show ?thesis
    by (simp add: nth_append last_conv_nth)
qed

lemma eval_hop_function_eq:
  assumes "length ts = length c" "c \<noteq> []"
  shows "\<exists>s. hop_state_at c (length c - 1) = Inr s \<and> eval_hop_function ts c = Inr (hts s) \<and>
           length (hts s) = length c"
proof -
  from assms(2) have n: "length c - 1 < length c" "Suc (length c - 1) = length c" by auto
  from hop_state_at_inv [OF n(1)] obtain s
    where "hop_state_at c (length c - 1) = Inr s" "length (hts s) = Suc (length c - 1)" by blast
  then show ?thesis
    unfolding eval_hop_function_def hop_state_at_def n(2) assms(1) by simp
qed

lemma hop_trace:
  assumes "length ts = length c" "c \<noteq> []"
  shows "\<exists>h. eval_hop_function ts c = Inr h \<and> length h = length c \<and>
           (\<forall>t<length c. \<exists>s. hop_state_at c t = Inr s \<and> h ! t = last (hts s))"
proof -
  from eval_hop_function_eq [OF assms] obtain sn
    where sn: "hop_state_at c (length c - 1) = Inr sn" "eval_hop_function ts c = Inr (hts sn)"
      "length (hts sn) = length c" by blast
  have "\<exists>s. hop_state_at c t = Inr s \<and> hts sn ! t = last (hts s)" if t: "t < length c" for t
  proof -
    from hop_state_at_inv [OF t] obtain s where s: "hop_state_at c t = Inr s" by blast
    from assms(2) t have "length c - 1 < length c" "t \<le> length c - 1" by auto
    from hop_state_at_nth [OF this sn(1) s] s show ?thesis by blast
  qed
  with sn show ?thesis by blast
qed

lemma hop_transition:
  assumes "length ts = length c" "Suc k < length c"
  shows "\<exists>h s s' v. eval_hop_function ts c = Inr h \<and> length h = length c \<and>
           hop_state_at c k = Inr s \<and> hop_state_at c (Suc k) = Inr s' \<and> pdonor s \<noteq> [] \<and>
           hop_val (c ! k) (c ! Suc k) (pdonor s) = Inr (v, pdonor s') \<and>
           h ! Suc k = h ! k + v"
proof -
  from assms(2) have ne: "c \<noteq> []" and k: "k < length c" by auto
  from hop_trace [OF assms(1) ne] obtain h
    where h: "eval_hop_function ts c = Inr h" "length h = length c"
      "\<forall>t<length c. \<exists>s. hop_state_at c t = Inr s \<and> h ! t = last (hts s)" by blast
  from h(3) k obtain s where s: "hop_state_at c k = Inr s" "h ! k = last (hts s)" by blast
  from h(3) assms(2) obtain s'
    where s': "hop_state_at c (Suc k) = Inr s'" "h ! Suc k = last (hts s')" by blast
  from hop_state_at_inv [OF k] s(1) have pd: "pdonor s \<noteq> []" by auto
  from hop_step [OF assms(2) s(1)] obtain v pd
    where v: "hop_val (c ! k) (c ! Suc k) (pdonor s) = Inr (v, pd)"
      "hop_state_at c (Suc k) = Inr \<lparr>hts = hts s @ [last (hts s) + v], pdonor = pd\<rparr>" by blast
  from v(2) s'(1) have "s' = \<lparr>hts = hts s @ [last (hts s) + v], pdonor = pd\<rparr>" by simp
  then have "pdonor s' = pd" "last (hts s') = last (hts s) + v" by simp_all
  with h(1,2) s s' pd v(1) show ?thesis by auto
qed

lemma hop_val_cases:
  assumes "pd \<noteq> []" "hop_val p c pd = Inr (v, pd')"
  shows "if c = p then v = 0 \<and> pd' = pd
         else if c = last pd then v = - 1 \<and> pd' = pd
         else v = 1 \<and> pd' = pd @ [p]"
  using assms by (auto simp: hop_val_def getlast_def split: if_splits)

lemma hop_first:
  assumes "length ts = length c" "c \<noteq> []"
  shows "\<exists>h. eval_hop_function ts c = Inr h \<and> length h = length c \<and> h ! 0 = 0"
proof -
  from hop_trace [OF assms] obtain h
    where h: "eval_hop_function ts c = Inr h" "length h = length c"
      "\<forall>t<length c. \<exists>s. hop_state_at c t = Inr s \<and> h ! t = last (hts s)" by blast
  from assms(2) have "0 < length c" by simp
  with h(3) obtain s where "hop_state_at c 0 = Inr s" "h ! 0 = last (hts s)" by blast
  then have "h ! 0 = 0" by (auto simp: hop_state_at_0 hop_init_def)
  with h show ?thesis by blast
qed

text \<open>
  Claim C1. For a nonempty center sequence (with one timestep per center), the hop function
  returns \<open>h\<close> with \<open>h[0] = 0\<close>; the donor stack starts as the one-element stack
  \<open>[0]\<close>; and at every frame \<open>t\<close> from 1 on, with \<open>s\<close> the state before the frame and
  \<open>s'\<close> the state after it: an unchanged center leaves \<open>h\<close> and the stack as they are;
  a center equal to the top of the stack gives \<open>h[t] = h[t-1] - 1\<close> and leaves the stack;
  any other center gives \<open>h[t] = h[t-1] + 1\<close> and pushes the previous center.
\<close>

theorem hop_classifier_transitions:
  assumes "length ts = length centers" "centers \<noteq> []"
  shows "\<exists>h. eval_hop_function ts centers = Inr h \<and> length h = length centers \<and> h ! 0 = 0 \<and>
           hop_state_at centers 0 = Inr hop_init \<and> pdonor hop_init = [0] \<and>
           (\<forall>t. 1 \<le> t \<and> t < length centers \<longrightarrow>
              (\<exists>s s'. hop_state_at centers (t - 1) = Inr s \<and> hop_state_at centers t = Inr s' \<and>
                 (if centers ! t = centers ! (t - 1)
                    then h ! t = h ! (t - 1) \<and> pdonor s' = pdonor s
                  else if centers ! t = last (pdonor s)
                    then h ! t = h ! (t - 1) - 1 \<and> pdonor s' = pdonor s
                  else h ! t = h ! (t - 1) + 1 \<and> pdonor s' = pdonor s @ [centers ! (t - 1)])))"
proof -
  from hop_first [OF assms] obtain h
    where h: "eval_hop_function ts centers = Inr h" "length h = length centers" "h ! 0 = 0"
    by blast
  have step: "\<exists>s s'. hop_state_at centers (t - 1) = Inr s \<and> hop_state_at centers t = Inr s' \<and>
                 (if centers ! t = centers ! (t - 1)
                    then h ! t = h ! (t - 1) \<and> pdonor s' = pdonor s
                  else if centers ! t = last (pdonor s)
                    then h ! t = h ! (t - 1) - 1 \<and> pdonor s' = pdonor s
                  else h ! t = h ! (t - 1) + 1 \<and> pdonor s' = pdonor s @ [centers ! (t - 1)])"
    if t: "1 \<le> t" "t < length centers" for t
  proof -
    from t(1) obtain k where k: "t = Suc k" by (cases t) auto
    with t(2) have "Suc k < length centers" by simp
    from hop_transition [OF assms(1) this] h(1) obtain s s' v
      where tr: "hop_state_at centers k = Inr s" "hop_state_at centers (Suc k) = Inr s'"
        "pdonor s \<noteq> []" "hop_val (centers ! k) (centers ! Suc k) (pdonor s) = Inr (v, pdonor s')"
        "h ! Suc k = h ! k + v" by auto
    from hop_val_cases [OF tr(3,4)] tr(1,2,5) show ?thesis
      unfolding k by (auto split: if_splits)
  qed
  from h step show ?thesis
    by (simp add: hop_state_at_0 hop_init_def)
qed

theorem hop_classifier_transitions_witness:
  "length [0, 1, 2, 3, 4 :: int] = length [1, 1, 2, 2, 1 :: int] \<and> [1, 1, 2, 2, 1 :: int] \<noteq> [] \<and>
   (1::nat) \<le> 4 \<and> (4::nat) < length [1, 1, 2, 2, 1 :: int] \<and>
   eval_hop_function [0, 1, 2, 3, 4] [1, 1, 2, 2, 1] = Inr [0, 0, 1, 1, 0] \<and>
   hop_state_at [1, 1, 2, 2, 1] 3 = Inr \<lparr>hts = [0, 0, 1, 1], pdonor = [0, 1]\<rparr> \<and>
   hop_state_at [1, 1, 2, 2, 1] 4 = Inr \<lparr>hts = [0, 0, 1, 1, 0], pdonor = [0, 1]\<rparr>"
proof -
  have a: "length [0, 1, 2, 3, 4 :: int] = length [1, 1, 2, 2, 1 :: int]" by simp
  have b: "[1, 1, 2, 2, 1 :: int] \<noteq> []" by simp
  have c: "eval_hop_function [0, 1, 2, 3, 4] [1, 1, 2, 2, 1] = Inr [0, 0, 1, 1, 0]"
    by (simp add: hop_eval)
  have d: "hop_state_at [1, 1, 2, 2, 1] 3 = Inr \<lparr>hts = [0, 0, 1, 1], pdonor = [0, 1]\<rparr>"
    by (simp add: hop_eval upt_rec)
  have e: "hop_state_at [1, 1, 2, 2, 1] 4 = Inr \<lparr>hts = [0, 0, 1, 1, 0], pdonor = [0, 1]\<rparr>"
    by (simp add: hop_eval upt_rec)
  from hop_classifier_transitions [OF a b] a b c d e show ?thesis by simp
qed

text \<open>
  Claim C6. Only the top of the donor stack is compared: a transition whose current center
  differs from the previous center and from the top of the stack, but is found deeper in the
  stack, is a forward hop and pushes the previous center. The witness below is the
  trajectory \<open>[1, 2, 3, 1]\<close>, whose hop function is \<open>[0, 1, 2, 3]\<close>.
\<close>

theorem hop_top_only:
  assumes "length ts = length centers" "1 \<le> t" "t < length centers"
    and "hop_state_at centers (t - 1) = Inr s"
    and "centers ! t \<noteq> centers ! (t - 1)"
    and "centers ! t \<noteq> last (pdonor s)"
    and "centers ! t \<in> set (butlast (pdonor s))"
  shows "\<exists>h s'. eval_hop_function ts centers = Inr h \<and> hop_state_at centers t = Inr s' \<and>
           h ! t = h ! (t - 1) + 1 \<and> pdonor s' = pdonor s @ [centers ! (t - 1)]"
proof -
  from assms(2) obtain k where k: "t = Suc k" by (cases t) auto
  with assms(3) have "Suc k < length centers" by simp
  from hop_transition [OF assms(1) this] assms(4) k obtain h s' v
    where tr: "eval_hop_function ts centers = Inr h" "hop_state_at centers (Suc k) = Inr s'"
      "pdonor s \<noteq> []" "hop_val (centers ! k) (centers ! Suc k) (pdonor s) = Inr (v, pdonor s')"
      "h ! Suc k = h ! k + v" by auto
  from hop_val_cases [OF tr(3,4)] assms(5,6) tr(1,2,5) show ?thesis
    unfolding k by (auto split: if_splits)
qed

theorem hop_top_only_witness:
  "length [0, 1, 2, 3 :: int] = length [1, 2, 3, 1 :: int] \<and> (1::nat) \<le> 3 \<and>
   (3::nat) < length [1, 2, 3, 1 :: int] \<and>
   hop_state_at [1, 2, 3, 1] (3 - 1) = Inr \<lparr>hts = [0, 1, 2], pdonor = [0, 1, 2]\<rparr> \<and>
   [1, 2, 3, 1 :: int] ! 3 \<noteq> [1, 2, 3, 1] ! (3 - 1) \<and>
   [1, 2, 3, 1 :: int] ! 3 \<noteq> last (pdonor \<lparr>hts = [0, 1, 2], pdonor = [0, 1, 2]\<rparr>) \<and>
   [1, 2, 3, 1 :: int] ! 3 \<in> set (butlast (pdonor \<lparr>hts = [0, 1, 2], pdonor = [0, 1, 2]\<rparr>)) \<and>
   eval_hop_function [0, 1, 2, 3] [1, 2, 3, 1] = Inr [0, 1, 2, 3] \<and>
   hop_state_at [1, 2, 3, 1] 3 = Inr \<lparr>hts = [0, 1, 2, 3], pdonor = [0, 1, 2, 3]\<rparr>"
proof -
  let ?c = "[1, 2, 3, 1 :: int]" and ?s = "\<lparr>hts = [0, 1, 2], pdonor = [0, 1, 2 :: int]\<rparr>"
  have a: "length [0, 1, 2, 3 :: int] = length ?c" by simp
  have b: "(1::nat) \<le> 3" by simp
  have c: "(3::nat) < length ?c" by simp
  have d: "hop_state_at ?c (3 - 1) = Inr ?s" by (simp add: hop_eval upt_rec)
  have e: "?c ! 3 \<noteq> ?c ! (3 - 1)" by simp
  have f: "?c ! 3 \<noteq> last (pdonor ?s)" by simp
  have g: "?c ! 3 \<in> set (butlast (pdonor ?s))" by simp
  have h: "eval_hop_function [0, 1, 2, 3] ?c = Inr [0, 1, 2, 3]" by (simp add: hop_eval)
  from hop_top_only [OF a b c d e f g] h
  have i: "hop_state_at ?c 3 = Inr \<lparr>hts = [0, 1, 2, 3], pdonor = [0, 1, 2, 3]\<rparr>"
    by (simp add: hop_eval upt_rec)
  from a b c d e f g h i show ?thesis by blast
qed

text \<open>
  Claim C9. For a nonempty center sequence the hop function starts at 0, moves by
  \<open>-1\<close>, \<open>0\<close> or \<open>1\<close> from each frame to the next, and is 0 throughout when the
  center never changes.
\<close>

theorem hop_unit_increments:
  assumes "length ts = length centers" "centers \<noteq> []"
  shows "\<exists>h. eval_hop_function ts centers = Inr h \<and> length h = length centers \<and> h ! 0 = 0 \<and>
           (\<forall>t. 1 \<le> t \<and> t < length h \<longrightarrow> h ! t - h ! (t - 1) \<in> {- 1, 0, 1}) \<and>
           ((\<forall>t<length centers. centers ! t = centers ! 0) \<longrightarrow>
              h = replicate (length centers) 0)"
proof -
  from hop_first [OF assms] obtain h
    where h: "eval_hop_function ts centers = Inr h" "length h = length centers" "h ! 0 = 0"
    by blast
  have delta: "if centers ! Suc k = centers ! k then h ! Suc k = h ! k
               else h ! Suc k = h ! k - 1 \<or> h ! Suc k = h ! k + 1"
    if "Suc k < length centers" for k
  proof -
    from hop_transition [OF assms(1) that] obtain h' s s' v
      where tr: "eval_hop_function ts centers = Inr h'" "pdonor (s :: hop_state) \<noteq> []"
        "hop_val (centers ! k) (centers ! Suc k) (pdonor s) = Inr (v, pdonor (s' :: hop_state))"
        "h' ! Suc k = h' ! k + v" by blast
    from tr(1) h(1) have "h' = h" by simp
    with hop_val_cases [OF tr(2,3)] tr(4) show ?thesis
      by (auto split: if_splits)
  qed
  have incr: "h ! t - h ! (t - 1) \<in> {- 1, 0, 1}" if t: "1 \<le> t" "t < length h" for t
  proof -
    from t(1) obtain k where k: "t = Suc k" by (cases t) auto
    with t(2) h(2) have "Suc k < length centers" by simp
    from delta [OF this] show ?thesis
      unfolding k by (auto split: if_splits)
  qed
  have const: "h = replicate (length centers) 0"
    if c: "\<forall>t<length centers. centers ! t = centers ! 0"
  proof -
    have "t < length centers \<Longrightarrow> h ! t = 0" for t
    proof (induction t)
      case 0
      show ?case by (rule h(3))
    next
      case (Suc k)
      then have "centers ! Suc k = centers ! k" using c by simp
      with delta [OF Suc.prems] Suc show ?case by simp
    qed
    with h(2) show ?thesis
      by (simp add: list_eq_iff_nth_eq)
  qed
  from h incr const show ?thesis by blast
qed

theorem hop_unit_increments_witness:
  "length [0, 1, 2, 3 :: int] = length [5, 5, 5, 5 :: int] \<and> [5, 5, 5, 5 :: int] \<noteq> [] \<and>
   list_all (\<lambda>x. x = [5, 5, 5, 5 :: int] ! 0) [5, 5, 5, 5] \<and>
   eval_hop_function [0, 1, 2, 3] [5, 5, 5, 5] = Inr [0, 0, 0, 0]"
proof -
  let ?c = "[5, 5, 5, 5 :: int]"
  have a: "length [0, 1, 2, 3 :: int] = length ?c" by simp
  have b: "?c \<noteq> []" by simp
  have c: "\<forall>t<length ?c. ?c ! t = ?c ! 0"
    by (simp add: nth_Cons split: nat.splits)
  from hop_unit_increments [OF a b] c
  have "eval_hop_function [0, 1, 2, 3] ?c = Inr (replicate (length ?c) 0)" by auto
  then have d: "eval_hop_function [0, 1, 2, 3] ?c = Inr [0, 0, 0, 0]"
    by (simp add: numeral_eq_Suc)
  have e: "list_all (\<lambda>x. x = ?c ! 0) ?c" by simp
  from a b d e show ?thesis by blast
qed

text \<open>While the center does not change, the hop function stays at 0 and the stack at its seed.\<close>

lemma hop_constant_prefix:
  assumes "k < length c" "\<forall>j\<le>k. c ! j = c ! 0"
  shows "hop_state_at c k = Inr \<lparr>hts = replicate (Suc k) 0, pdonor = [0]\<rparr>"
  using assms
proof (induction k)
  case 0
  then show ?case by (simp add: hop_state_at_0 hop_init_def)
next
  case (Suc k)
  have p1: "k < length c" using Suc.prems(1) by simp
  have p2: "\<forall>j\<le>k. c ! j = c ! 0" using Suc.prems(2) by (meson le_SucI)
  note st = Suc.IH [OF p1 p2]
  have "c ! Suc k = c ! 0" "c ! k = c ! 0"
    using Suc.prems(2) by (meson le_SucI order_refl)+
  then have eq: "c ! Suc k = c ! k" by simp
  from hop_step [OF Suc.prems(1) st] obtain v pd
    where v: "hop_val (c ! k) (c ! Suc k) [0] = Inr (v, pd)"
      "hop_state_at c (Suc k) = Inr \<lparr>hts = replicate (Suc k) 0 @ [last (replicate (Suc k) 0) + v], pdonor = pd\<rparr>"
    by auto
  from v(1) eq have "v = 0" "pd = [0]" by (simp_all add: hop_val_def)
  with v(2) show ?case by (simp add: replicate_append_same)
qed

text \<open>
  At the first transition that changes the center the stack is still the seed \<open>[0]\<close> and
  the hop function is still 0. The transition is then scored \<open>+1\<close> for every current
  center but 0, and \<open>-1\<close> for the current center 0, which is compared equal to the seed.
\<close>

lemma hop_first_change:
  assumes "length ts = length centers" "1 \<le> t" "t < length centers"
    and "\<forall>k<t. centers ! k = centers ! 0"
    and "centers ! t \<noteq> centers ! (t - 1)"
  shows "\<exists>h s. eval_hop_function ts centers = Inr h \<and>
           hop_state_at centers (t - 1) = Inr s \<and> pdonor s = [0] \<and>
           h ! (t - 1) = 0 \<and> h ! t = (if centers ! t = 0 then - 1 else 1)"
proof -
  from assms(2) obtain k where k: "t = Suc k" by (cases t) auto
  with assms(3) have lt: "Suc k < length centers" "k < length centers" by simp_all
  from assms(4) k have "\<forall>j\<le>k. centers ! j = centers ! 0"
    by (meson le_imp_less_Suc)
  from hop_constant_prefix [OF lt(2) this]
  have st: "hop_state_at centers k = Inr \<lparr>hts = replicate (Suc k) 0, pdonor = [0]\<rparr>" .
  from hop_transition [OF assms(1) lt(1)] st obtain h s' v
    where tr: "eval_hop_function ts centers = Inr h"
      "hop_val (centers ! k) (centers ! Suc k) [0] = Inr (v, pdonor (s' :: hop_state))"
      "h ! Suc k = h ! k + v" by auto
  from assms(5) k tr(2) have v: "v = (if centers ! Suc k = 0 then - 1 else 1)"
    by (auto simp: hop_val_def getlast_def split: if_splits)
  from lt(2) have ne: "centers \<noteq> []" by auto
  from hop_trace [OF assms(1) ne] tr(1) lt(2) obtain sk
    where "hop_state_at centers k = Inr sk" "h ! k = last (hts sk)" by auto
  with st have "h ! k = 0" by simp
  with tr(1,3) v st show ?thesis
    unfolding k by simp
qed

text \<open>
  Claim C7. The seed of the donor stack is meant never to match a real center, so that the
  first change of center is a forward hop whatever the current center is; the description
  of \<open>eval_hop_function\<close> says the same, \<open>dh = 1\<close> for a hop to a new acceptor and
  \<open>dh = -1\<close> only for a hop to the last donor. The code does not do this: the seed is the
  integer 0, a value of the same type as the centers. On the trajectory \<open>[1, 0]\<close> the first
  change of center goes to center 0, which has never been a donor; it is compared equal to
  the seed, the backward branch is taken, and the hop function is \<open>[0, -1]\<close> where the
  claim and the description give \<open>[0, 1]\<close>.
\<close>

theorem hop_sentinel_collision:
  "eval_hop_function [0, 1] [1, 0] = Inr [0, - 1] \<and>
   hop_val 1 0 (pdonor hop_init) = Inr (- 1, [0])"
  by (simp add: hop_eval)

section \<open>The two largest CI coefficients: proofs\<close>

lemma py_max_fold: "foldl (\<lambda>m y. if y > m then y else m) x ys = Max (set (x # ys))"
proof (induction ys arbitrary: x)
  case Nil
  then show ?case by simp
next
  case (Cons y ys)
  have "Max (insert x (insert y (set ys))) = Max (insert (max x y) (set ys))"
    by (cases "set ys = {}") (simp_all add: max.assoc)
  then show ?case using Cons [of "if y > x then y else x"]
    by (auto simp: max_def)
qed

lemma py_max_eq: "xs \<noteq> [] \<Longrightarrow> py_max xs = Inr (Max (set xs))"
  by (cases xs) (simp_all add: py_max_def py_max_fold del: Max_insert set_simps)

lemma second_largest_single:
  "foldl second_largest_step (None, None) [x] = (Some x, None)"
  by (simp add: second_largest_step_def ge_none_def)

lemma second_largest_step_Some:
  "second_largest_step (Some M, m2) x =
     (if x \<ge> M then (Some x, Some M)
      else if gt_none x m2 then (Some M, Some x) else (Some M, m2))"
  by (simp add: second_largest_step_def ge_none_def)

lemma set_remove1_Max:
  assumes "m \<in> set ys"
  shows "insert m (set (remove1 m ys)) = set ys"
  using assms by (induction ys) auto

lemma second_largest_inv:
  assumes "xs \<noteq> []"
  shows "foldl second_largest_step (None, None) xs =
           (Some (Max (set xs)),
            if length xs = 1 then None else Some (Max (set (remove1 (Max (set xs)) xs))))"
  using assms
proof (induction xs rule: rev_induct)
  case Nil
  then show ?case by simp
next
  case (snoc x ys)
  show ?case
  proof (cases "ys = []")
    case True
    then show ?thesis by (simp add: second_largest_step_def ge_none_def)
  next
    case False
    define M where "M = Max (set ys)"
    have Mmem: "M \<in> set ys" using False by (simp add: M_def)
    have Mge: "\<And>y. y \<in> set ys \<Longrightarrow> y \<le> M" by (simp add: M_def)
    from snoc.IH [OF False]
    have st: "foldl second_largest_step (None, None) ys =
                (Some M, if length ys = 1 then None else Some (Max (set (remove1 M ys))))"
      by (simp add: M_def)
    have len: "length (ys @ [x]) \<noteq> 1" using False by (cases ys) auto
    have step: "foldl second_largest_step (None, None) (ys @ [x]) =
        second_largest_step
          (Some M, if length ys = 1 then None else Some (Max (set (remove1 M ys)))) x"
      by (simp add: st)
    have newmax: "Max (set (ys @ [x])) = max x M"
      using False by (simp add: M_def)
    show ?thesis
    proof (cases "x \<ge> M")
      case True
      then have mx: "Max (set (ys @ [x])) = x" using newmax by (simp add: max_def)
      have "Max (set (remove1 x (ys @ [x]))) = M"
      proof (cases "x \<in> set ys")
        case True
        with Mge \<open>x \<ge> M\<close> have "x = M" by force
        then have "set (remove1 x (ys @ [x])) = insert M (set (remove1 M ys))"
          using Mmem by (simp add: remove1_append)
        then show ?thesis using set_remove1_Max [OF Mmem] by (simp add: M_def)
      next
        case False
        then show ?thesis by (simp add: remove1_append M_def)
      qed
      with True mx len show ?thesis
        unfolding step by (simp add: second_largest_step_Some del: set_append)
    next
      case xlt: False
      then have mx: "Max (set (ys @ [x])) = M" using newmax by (simp add: max_def)
      have rm: "remove1 M (ys @ [x]) = remove1 M ys @ [x]"
        using Mmem by (simp add: remove1_append)
      show ?thesis
      proof (cases "length ys = 1")
        case True
        then have "remove1 M ys = []" using Mmem by (cases ys) auto
        with True mx len rm xlt show ?thesis
          unfolding step by (simp add: second_largest_step_Some gt_none_def del: set_append)
      next
        case long: False
        have "remove1 M ys \<noteq> []"
          using long \<open>ys \<noteq> []\<close> by (metis One_nat_def Suc_pred length_greater_0_conv length_remove1 Mmem list.size(3))
        then have "Max (set (remove1 M ys @ [x])) = max x (Max (set (remove1 M ys)))"
          by simp
        with long mx len rm xlt show ?thesis
          unfolding step
          by (auto simp: second_largest_step_Some gt_none_def max_def simp del: set_append)
      qed
    qed
  qed
qed

text \<open>The two entries, read off the sorted vector.\<close>

lemma sorted_le_last:
  "sorted ys \<Longrightarrow> y \<in> set ys \<Longrightarrow> y \<le> last (ys :: real list)"
  by (induction ys) auto

lemma sorted_last_Max:
  assumes "sorted ys" "ys \<noteq> []"
  shows "last ys = Max (set (ys :: real list))"
proof (rule Max_eqI [symmetric])
  show "finite (set ys)" by simp
  show "\<And>y. y \<in> set ys \<Longrightarrow> y \<le> last ys" by (rule sorted_le_last [OF assms(1)])
  show "last ys \<in> set ys" using assms(2) by simp
qed

lemma sorted_butlast: "sorted ys \<Longrightarrow> sorted (butlast (ys :: real list))"
  by (induction ys) (auto dest: in_set_butlastD)

lemma largest_sort:
  fixes xs :: "real list"
  assumes "xs \<noteq> []"
  shows "Max (set xs) = rev (sort xs) ! 0"
proof -
  have ne: "sort xs \<noteq> []" using assms by (metis length_sort length_0_conv)
  then have "rev (sort xs) ! 0 = last (sort xs)"
    using assms by (simp add: rev_nth last_conv_nth)
  with sorted_last_Max [OF _ ne] show ?thesis by simp
qed

lemma second_entry_sort:
  fixes xs :: "real list"
  assumes "2 \<le> length xs"
  shows "Max (set (remove1 (Max (set xs)) xs)) = rev (sort xs) ! 1"
proof -
  let ?ys = "sort xs" and ?M = "Max (set xs)"
  from assms have ne: "xs \<noteq> []" by auto
  have len: "length ?ys = length xs" by simp
  with ne have yne: "?ys \<noteq> []" by (metis length_0_conv)
  have lastM: "last ?ys = ?M"
    using sorted_last_Max [of ?ys] yne by simp
  have "mset (butlast ?ys @ [last ?ys]) = mset ?ys"
    using append_butlast_last_id [OF yne] by simp
  then have "mset (butlast ?ys) = mset ?ys - {#last ?ys#}"
    by (metis add_mset_remove_trivial mset.simps(2) mset_append union_mset_add_mset_right mset_rev rev.simps(2) rev_rev_ident add_mset_add_single)
  also have "\<dots> = mset xs - {#?M#}" by (simp add: lastM)
  also have "\<dots> = mset (remove1 ?M xs)" by simp
  finally have "set (butlast ?ys) = set (remove1 ?M xs)"
    by (metis set_mset_mset)
  moreover have bne: "butlast ?ys \<noteq> []"
    using assms len by (metis One_nat_def Suc_1 Suc_le_lessD length_butlast length_greater_0_conv zero_less_diff)
  moreover have "last (butlast ?ys) = Max (set (butlast ?ys))"
    by (rule sorted_last_Max [OF sorted_butlast bne]) simp
  ultimately have "Max (set (remove1 ?M xs)) = last (butlast ?ys)" by simp
  also have "\<dots> = ?ys ! (length ?ys - 2)"
    using bne assms by (simp add: last_conv_nth nth_butlast numeral_2_eq_2)
  also have "\<dots> = rev ?ys ! 1"
    using assms len by (simp add: rev_nth numeral_2_eq_2)
  finally show ?thesis .
qed

lemma second_largest_eq:
  "2 \<le> length xs \<Longrightarrow> second_largest xs = Some (second_entry xs)"
proof -
  assume l: "2 \<le> length xs"
  then have "xs \<noteq> []" "length xs \<noteq> 1" by auto
  with second_largest_inv [of xs] show ?thesis
    by (simp add: second_largest_def second_entry_def second_entry_sort [OF l])
qed

lemma second_largest_short:
  "second_largest [] = None" "second_largest [x] = None"
  by (simp_all add: second_largest_def second_largest_step_def ge_none_def)

text \<open>The definitions that a run on a concrete vector unfolds.\<close>

lemmas ci_eval = ci_squares_def ci_frame_def py_max_def second_largest_def
  second_largest_step_def ge_none_def gt_none_def

lemma second_entry_mem:
  assumes "2 \<le> length xs"
  shows "second_entry xs \<in> set xs"
proof -
  from assms have ne: "xs \<noteq> []" by auto
  then have m: "Max (set xs) \<in> set xs" by simp
  have "length (remove1 (Max (set xs)) xs) = length xs - 1"
    using m by (simp add: length_remove1)
  with assms have "remove1 (Max (set xs)) xs \<noteq> []" by auto
  then have "Max (set (remove1 (Max (set xs)) xs)) \<in> set (remove1 (Max (set xs)) xs)"
    by simp
  then have "Max (set (remove1 (Max (set xs)) xs)) \<in> set xs"
    using set_remove1_subset by fastforce
  then show ?thesis
    by (simp add: second_entry_def second_entry_sort [OF assms])
qed

lemma second_entry_le:
  assumes "2 \<le> length xs"
  shows "second_entry xs \<le> largest xs"
proof -
  from assms have "xs \<noteq> []" by auto
  have "second_entry xs \<le> Max (set xs)"
    using second_entry_mem [OF assms] by simp
  with largest_sort [OF \<open>xs \<noteq> []\<close>] show ?thesis
    by (simp add: largest_def)
qed

lemma ci_frame_eq:
  assumes "2 \<le> length a"
  shows "ci_frame a = Inr (largest a * largest a, second_entry a * second_entry a)"
proof -
  from assms have "a \<noteq> []" by auto
  from largest_sort [OF this] this show ?thesis
    by (simp add: ci_frame_def py_max_eq second_largest_eq [OF assms] largest_def)
qed

lemma square_le_iff:
  fixes m1 m2 :: real
  assumes "m2 \<le> m1"
  shows "m2 * m2 \<le> m1 * m1 \<longleftrightarrow> m2 = m1 \<or> 0 \<le> m1 + m2"
proof -
  have "m1 * m1 - m2 * m2 = (m1 - m2) * (m1 + m2)" by (simp add: algebra_simps)
  then have "m2 * m2 \<le> m1 * m1 \<longleftrightarrow> 0 \<le> (m1 - m2) * (m1 + m2)"
    by (metis diff_ge_0_iff_ge)
  also have "\<dots> \<longleftrightarrow> m2 = m1 \<or> 0 \<le> m1 + m2"
    using assms by (auto simp: zero_le_mult_iff)
  finally show ?thesis .
qed

text \<open>
  Claim C3, as amended. For a vector with at least two entries the loop body returns the
  pair of the square of the largest entry and the square of the second-largest entry. The
  second square is never negative. The first square is at least the second exactly when the
  two entries are equal or their sum is not negative; so it is whenever no entry of the
  vector is negative.
\<close>

theorem ci_frame_ordered:
  assumes "2 \<le> length a"
  shows "\<exists>d s. ci_frame a = Inr (d, s) \<and>
           d = largest a * largest a \<and> s = second_entry a * second_entry a \<and> 0 \<le> s \<and>
           (s \<le> d \<longleftrightarrow> second_entry a = largest a \<or> 0 \<le> largest a + second_entry a) \<and>
           ((\<forall>x\<in>set a. 0 \<le> x) \<longrightarrow> s \<le> d)"
proof -
  let ?d = "largest a * largest a" and ?s = "second_entry a * second_entry a"
  have iff: "?s \<le> ?d \<longleftrightarrow> second_entry a = largest a \<or> 0 \<le> largest a + second_entry a"
    by (rule square_le_iff [OF second_entry_le [OF assms]])
  have nonneg: "?s \<le> ?d" if "\<forall>x\<in>set a. 0 \<le> x"
  proof -
    from that second_entry_mem [OF assms] have "0 \<le> second_entry a" by blast
    with second_entry_le [OF assms] have "0 \<le> largest a + second_entry a" by simp
    with iff show ?thesis by simp
  qed
  from ci_frame_eq [OF assms] iff nonneg show ?thesis by simp
qed

theorem ci_frame_ordered_witness:
  "2 \<le> length [3 / 5, 4 / 5, 0 :: real] \<and> list_all (\<lambda>x. 0 \<le> x) [3 / 5, 4 / 5, 0 :: real] \<and>
   ci_frame [3 / 5, 4 / 5, 0] = Inr (16 / 25, 9 / 25) \<and> (9 / 25 :: real) \<le> 16 / 25"
proof -
  have a: "2 \<le> length [3 / 5, 4 / 5, 0 :: real]" by simp
  have b: "list_all (\<lambda>x. 0 \<le> x) [3 / 5, 4 / 5, 0 :: real]" by simp
  have c: "ci_frame [3 / 5, 4 / 5, 0] = Inr (16 / 25, 9 / 25)" by (simp add: ci_eval)
  from ci_frame_ordered [OF a] b c have "(9 / 25 :: real) \<le> 16 / 25" by simp
  with a b c show ?thesis by blast
qed

text \<open>
  Claim C3 as stated, for arbitrary real entries, fails: on the vector \<open>[1, -2]\<close> the
  largest entry is 1 and the second-largest is \<open>-2\<close>, so the pair is \<open>(1, 4)\<close> and the
  first square is below the second.
\<close>

theorem ci_frame_negative_entry:
  "2 \<le> length [1, - 2 :: real] \<and> ci_frame [1, - 2] = Inr (1, 4) \<and> \<not> ((1::real) \<ge> 4)"
  by (simp add: ci_eval)

lemma ci_frame_error:
  "ci_frame a = Inl e \<Longrightarrow> e = ValueError \<or> e = TypeError"
  by (auto simp: ci_frame_def py_max_def split: list.splits option.splits sum.splits)

lemma ci_frame_short:
  "length a < 2 \<Longrightarrow> ci_frame a = (if a = [] then Inl ValueError else Inl TypeError)"
proof -
  assume "length a < 2"
  then consider "a = []" | x where "a = [x]"
    by (cases a) (auto simp: length_Suc_conv)
  then show ?thesis
    by cases (simp_all add: ci_frame_def py_max_def second_largest_short)
qed

lemma ci_loop_short:
  assumes "a \<in> set tmp" "length a < 2"
  shows "ci_loop tmp acc = Inl ValueError \<or> ci_loop tmp acc = Inl TypeError"
  using assms
proof (induction tmp arbitrary: acc)
  case Nil
  then show ?case by simp
next
  case (Cons i rest)
  show ?case
  proof (cases "ci_frame i")
    case (Inl e)
    with ci_frame_error [OF Inl] show ?thesis by auto
  next
    case (Inr p)
    with Cons.prems ci_frame_short [of i] have "a \<in> set rest"
      by (auto split: if_splits)
    from Cons.IH [OF this Cons.prems(2)] Inr show ?thesis
      by (cases p) simp
  qed
qed

text \<open>
  Claim C5. If some frame has fewer than two entries, the loop over the frames ends in an
  exception and returns no pair of arrays at all. For such a frame \<open>second_largest\<close> returns
  \<open>None\<close>, which is never squared into a number: an empty frame fails in \<open>max\<close>
  (ValueError), a frame of one entry fails in the product \<open>None * None\<close> (TypeError).
\<close>

theorem ci_squares_short_frame:
  assumes "a \<in> set tmp" "length a < 2"
  shows "(ci_squares tmp = Inl ValueError \<or> ci_squares tmp = Inl TypeError) \<and>
         (\<forall>r. ci_squares tmp \<noteq> Inr r) \<and>
         second_largest a = None \<and>
         ci_frame a = (if a = [] then Inl ValueError else Inl TypeError)"
proof -
  from ci_loop_short [OF assms]
  have e: "ci_squares tmp = Inl ValueError \<or> ci_squares tmp = Inl TypeError"
    by (simp add: ci_squares_def)
  then have r: "\<forall>r. ci_squares tmp \<noteq> Inr r" by auto
  from assms(2) consider "a = []" | x where "a = [x]"
    by (cases a) (auto simp: length_Suc_conv)
  then have n: "second_largest a = None"
    by cases (simp_all add: second_largest_short)
  from e r n ci_frame_short [OF assms(2)] show ?thesis by blast
qed

theorem ci_squares_short_frame_witness:
  "[7 / 10 :: real] \<in> set [[4 / 5, 3 / 5], [7 / 10]] \<and> length [7 / 10 :: real] < 2 \<and>
   ci_squares [[4 / 5, 3 / 5], [7 / 10]] = Inl TypeError \<and>
   second_largest [7 / 10] = None \<and> ci_frame [7 / 10] = Inl TypeError"
proof -
  have a: "[7 / 10 :: real] \<in> set [[4 / 5, 3 / 5], [7 / 10]]" by simp
  have b: "length [7 / 10 :: real] < 2" by simp
  have c: "ci_squares [[4 / 5, 3 / 5], [7 / 10]] = Inl TypeError" by (simp add: ci_eval)
  from ci_squares_short_frame [OF a b] a b c show ?thesis by simp
qed

section \<open>The free energy: proofs\<close>

text \<open>The definitions that a run on a concrete grid unfolds.\<close>

lemmas fe_eval = free_energy_def fe_array_def shift_zero_def np_min_def fe_val_def fed_val_def
  np_log_def linspace_def kb_kcal_def kb_def

subsection \<open>The grid and the energies before the shift\<close>

lemma linspace_length: "length (linspace a b n) = nat n"
  by (simp add: linspace_def)

lemma linspace_nth:
  assumes "i < nat n"
  shows "linspace a b n ! i = a + real i * ((b - a) / real_of_int (n - 1))"
proof (cases "n = 1")
  case True
  with assms show ?thesis by (simp add: linspace_def)
next
  case False
  with assms have n: "2 \<le> n" by simp
  show ?thesis
  proof (cases "i = nat n - 1")
    case True
    from n have "real i = real_of_int (n - 1)" unfolding True by simp
    moreover from n have "real_of_int (n - 1) \<noteq> 0" by simp
    ultimately have "a + real i * ((b - a) / real_of_int (n - 1)) = b" by simp
    with n assms True show ?thesis by (simp add: linspace_def)
  next
    case False
    with n assms show ?thesis by (simp add: linspace_def add.commute)
  qed
qed

lemma linspace_ends:
  assumes "2 \<le> n"
  shows "linspace a b n ! 0 = a" "linspace a b n ! (nat n - 1) = b"
proof -
  from assms have "0 < nat n" by simp
  from linspace_nth [OF this] show "linspace a b n ! 0 = a" by simp
  from assms show "linspace a b n ! (nat n - 1) = b" by (simp add: linspace_def)
qed

lemma fe_array_length:
  "length (fe_array kde genfe first second nbins) = (if genfe then nat nbins else nat (2 * nbins))"
  by (simp add: fe_array_def linspace_length)

lemma fe_array_nth_fe:
  "i < nat nbins \<Longrightarrow>
     fe_array kde True first second nbins ! i = fe_val (kde first (linspace 0 1 nbins ! i))"
  by (simp add: fe_array_def linspace_length)

lemma fe_array_nth_fed:
  "i < nat (2 * nbins) \<Longrightarrow>
     fe_array kde False first second nbins ! i =
       fed_val (kde (map2 (-) first second)) (kde (map2 (-) second first))
         (linspace (- 1) 1 (2 * nbins) ! i)"
  by (simp add: fe_array_def linspace_length)

lemma kT_pos: "0 < kb_kcal * 300"
  by (simp add: kb_kcal_def kb_def)

lemma fe_val_cases:
  "fe_val p = (if 0 < p then Num (- kb_kcal * 300 * ln p) else if p = 0 then PosInf else NaN)"
  using kT_pos by (simp add: fe_val_def np_log_def)

text \<open>
  Claim C2. In difference mode the energies are computed on the grid of \<open>2*nbins\<close> evenly
  spaced points from \<open>-1\<close> to \<open>1\<close>. At a grid point \<open>x < -0.04\<close> the energy before the
  shift is \<open>-kb_kcal*300*log\<close> of the density fitted on \<open>second - first\<close>; at
  \<open>x > 0.04\<close> it is the same expression with the density fitted on \<open>first - second\<close>;
  and for every value \<open>x\<close> of the loop variable between \<open>-0.04\<close> and \<open>0.04\<close>, both
  included, the energy appended is 0.

  The grid points are taken over the real numbers here, and the script computes them in
  floating point. The two agree on the side of a threshold except where the real grid point
  lies exactly on \<open>-0.04\<close> or \<open>0.04\<close> (this happens when \<open>nbins\<close> is 13, 38, 63, ...),
  since the computed point is then a rounding away from the threshold. The statement by
  index is therefore made for the grid points that are not on a threshold; the statement
  for a value on the threshold is the one about the loop variable.
\<close>

theorem fed_grid_energy:
  "length (fe_array kde False first second nbins) = nat (2 * nbins) \<and>
   length (linspace (- 1) 1 (2 * nbins)) = nat (2 * nbins) \<and>
   (1 \<le> nbins \<longrightarrow> linspace (- 1) 1 (2 * nbins) ! 0 = - 1 \<and>
                   linspace (- 1) 1 (2 * nbins) ! (nat (2 * nbins) - 1) = 1) \<and>
   (\<forall>i<nat (2 * nbins).
      linspace (- 1) 1 (2 * nbins) ! i = - 1 + real i * (2 / real_of_int (2 * nbins - 1)) \<and>
      (let x = linspace (- 1) 1 (2 * nbins) ! i;
           e = fe_array kde False first second nbins ! i
       in (x < - (4 / 100) \<longrightarrow>
             e = np_scale (- kb_kcal * 300) (np_log (kde (map2 (-) second first) x))) \<and>
          (x > 4 / 100 \<longrightarrow>
             e = np_scale (- kb_kcal * 300) (np_log (kde (map2 (-) first second) x))) \<and>
          (- (4 / 100) < x \<and> x < 4 / 100 \<longrightarrow> e = Num 0))) \<and>
   (\<forall>x. let pdf3 = kde (map2 (-) first second);
            pdf4 = kde (map2 (-) second first);
            val = fed_val pdf3 pdf4 x
        in (x < - (4 / 100) \<longrightarrow> val = np_scale (- kb_kcal * 300) (np_log (pdf4 x))) \<and>
           (x > 4 / 100 \<longrightarrow> val = np_scale (- kb_kcal * 300) (np_log (pdf3 x))) \<and>
           (- (4 / 100) \<le> x \<and> x \<le> 4 / 100 \<longrightarrow> val = Num 0))"
proof -
  have ends: "linspace (- 1) 1 (2 * nbins) ! 0 = - 1 \<and>
      linspace (- 1) 1 (2 * nbins) ! (nat (2 * nbins) - 1) = 1" if "1 \<le> nbins"
  proof -
    from that have "2 \<le> 2 * nbins" by simp
    from linspace_ends [OF this] show ?thesis by simp
  qed
  have pt: "linspace (- 1) 1 (2 * nbins) ! i = - 1 + real i * (2 / real_of_int (2 * nbins - 1))"
    if "i < nat (2 * nbins)" for i
    using linspace_nth [OF that, of "- 1" 1] by simp
  have en: "fe_array kde False first second nbins ! i =
       fed_val (kde (map2 (-) first second)) (kde (map2 (-) second first))
         (linspace (- 1) 1 (2 * nbins) ! i)" if "i < nat (2 * nbins)" for i
    by (rule fe_array_nth_fed [OF that])
  have byindex: "\<forall>i<nat (2 * nbins).
      linspace (- 1) 1 (2 * nbins) ! i = - 1 + real i * (2 / real_of_int (2 * nbins - 1)) \<and>
      (let x = linspace (- 1) 1 (2 * nbins) ! i;
           e = fe_array kde False first second nbins ! i
       in (x < - (4 / 100) \<longrightarrow>
             e = np_scale (- kb_kcal * 300) (np_log (kde (map2 (-) second first) x))) \<and>
          (x > 4 / 100 \<longrightarrow>
             e = np_scale (- kb_kcal * 300) (np_log (kde (map2 (-) first second) x))) \<and>
          (- (4 / 100) < x \<and> x < 4 / 100 \<longrightarrow> e = Num 0))"
    using pt en by (simp add: Let_def fed_val_def fe_val_def)
  have byvalue: "\<forall>x. let pdf3 = kde (map2 (-) first second);
            pdf4 = kde (map2 (-) second first);
            val = fed_val pdf3 pdf4 x
        in (x < - (4 / 100) \<longrightarrow> val = np_scale (- kb_kcal * 300) (np_log (pdf4 x))) \<and>
           (x > 4 / 100 \<longrightarrow> val = np_scale (- kb_kcal * 300) (np_log (pdf3 x))) \<and>
           (- (4 / 100) \<le> x \<and> x \<le> 4 / 100 \<longrightarrow> val = Num 0)"
    by (simp add: Let_def fed_val_def fe_val_def)
  have l1: "length (fe_array kde False first second nbins) = nat (2 * nbins)"
    by (simp add: fe_array_length)
  have l2: "length (linspace (- 1) 1 (2 * nbins)) = nat (2 * nbins)"
    by (rule linspace_length)
  have e': "1 \<le> nbins \<longrightarrow> linspace (- 1) 1 (2 * nbins) ! 0 = - 1 \<and>
      linspace (- 1) 1 (2 * nbins) ! (nat (2 * nbins) - 1) = 1"
    using ends by blast
  show ?thesis
    using l1 l2 e' byindex byvalue by (intro conjI) assumption+
qed

theorem fed_grid_energy_witness:
  "(13::nat) < nat (2 * 14) \<and> (0::nat) < nat (2 * 14) \<and> (27::nat) < nat (2 * 14) \<and>
   (1::int) \<le> 14 \<and>
   linspace (- 1) 1 (2 * 14) ! 0 = - 1 \<and>
   linspace (- 1) 1 (2 * 14) ! 13 = - (1 / 27) \<and>
   linspace (- 1) 1 (2 * 14) ! 27 = 1 \<and>
   fe_array (\<lambda>s x. if s = [7 / 25] then 2 else 3) False [16 / 25] [9 / 25] 14 ! 0 =
     np_scale (- kb_kcal * 300) (np_log 3) \<and>
   fe_array (\<lambda>s x. if s = [7 / 25] then 2 else 3) False [16 / 25] [9 / 25] 14 ! 13 = Num 0 \<and>
   fe_array (\<lambda>s x. if s = [7 / 25] then 2 else 3) False [16 / 25] [9 / 25] 14 ! 27 =
     np_scale (- kb_kcal * 300) (np_log 2) \<and>
   fed_val ((\<lambda>(s::real list) (x::real). if s = [7 / 25] then 2 else 3)
              (map2 (-) [16 / 25] [9 / 25]))
           ((\<lambda>(s::real list) (x::real). if s = [7 / 25] then 2 else 3)
              (map2 (-) [9 / 25] [16 / 25]))
           (4 / 100) = Num 0"
proof -
  let ?kde = "\<lambda>(s::real list) (x::real). if s = [7 / 25] then 2 else 3 :: real"
  let ?fe = "fe_array ?kde False [16 / 25] [9 / 25] 14"
  let ?grid = "linspace (- 1) 1 (2 * 14)"
  have a: "(13::nat) < nat (2 * 14)" by simp
  have z: "(0::nat) < nat (2 * 14)" by simp
  have l: "(27::nat) < nat (2 * 14)" by simp
  have b: "(1::int) \<le> 14" by simp
  note t = fed_grid_energy [of ?kde "[16 / 25]" "[9 / 25]" 14]
  note ends = t [THEN conjunct2, THEN conjunct2, THEN conjunct1, rule_format, OF b]
  note byindex = t [THEN conjunct2, THEN conjunct2, THEN conjunct2, THEN conjunct1, rule_format]
  note byvalue = t [THEN conjunct2, THEN conjunct2, THEN conjunct2, THEN conjunct2, rule_format,
      unfolded Let_def]
  have first: "?grid ! 0 = - 1" by (rule ends [THEN conjunct1])
  have "?grid ! (nat (2 * 14) - 1) = 1" by (rule ends [THEN conjunct2])
  then have last: "?grid ! 27 = 1" by simp
  have "?grid ! 13 = - 1 + real 13 * (2 / real_of_int (2 * 14 - 1))"
    by (rule byindex [OF a, THEN conjunct1])
  then have mid: "?grid ! 13 = - (1 / 27)" by simp
  note at13 = byindex [OF a, THEN conjunct2, unfolded Let_def, THEN conjunct2, THEN conjunct2]
  have in13: "- (4 / 100) < ?grid ! 13 \<and> ?grid ! 13 < 4 / 100"
    unfolding mid by simp
  have e13: "?fe ! 13 = Num 0" by (rule at13 [rule_format, OF in13])
  note at0 = byindex [OF z, THEN conjunct2, unfolded Let_def, THEN conjunct1]
  have in0: "?grid ! 0 < - (4 / 100)" unfolding first by simp
  have "?fe ! 0 = np_scale (- kb_kcal * 300)
      (np_log (?kde (map2 (-) [9 / 25] [16 / 25]) (?grid ! 0)))"
    by (rule at0 [rule_format, OF in0])
  then have e0: "?fe ! 0 = np_scale (- kb_kcal * 300) (np_log 3)"
    by simp
  note at27 = byindex [OF l, THEN conjunct2, unfolded Let_def, THEN conjunct2, THEN conjunct1]
  have in27: "?grid ! 27 > 4 / 100" unfolding last by simp
  have "?fe ! 27 = np_scale (- kb_kcal * 300)
      (np_log (?kde (map2 (-) [16 / 25] [9 / 25]) (?grid ! 27)))"
    by (rule at27 [rule_format, OF in27])
  then have e27: "?fe ! 27 = np_scale (- kb_kcal * 300) (np_log 2)"
    by simp
  have inthr: "- (4 / 100) \<le> (4 / 100 :: real) \<and> (4 / 100 :: real) \<le> 4 / 100" by simp
  have thr: "fed_val (?kde (map2 (-) [16 / 25] [9 / 25]))
      (?kde (map2 (-) [9 / 25] [16 / 25])) (4 / 100) = Num 0"
    by (rule byvalue [of "4 / 100", THEN conjunct2, THEN conjunct2, rule_format, OF inthr])
  show ?thesis
    by (intro conjI) (fact a z l b first mid last e0 e13 e27 thr)+
qed

subsection \<open>The shift of the zero point\<close>




lemma np_min_nonempty: "np_min xs = Inr m \<Longrightarrow> xs \<noteq> []"
  by (auto simp: np_min_def)

lemma np_min_total: "xs \<noteq> [] \<Longrightarrow> \<exists>m. np_min xs = Inr m"
  by (cases xs) (auto simp: np_min_def)





lemma np_min_fold_mem:
  "foldl (\<lambda>m y. if np_less y m then y else m) x ys \<in> set (x # ys)"
proof (induction ys arbitrary: x)
  case Nil
  then show ?case by simp
next
  case (Cons y ys)
  from Cons [of "if np_less y x then y else x"] show ?case
    by (auto split: if_splits)
qed

lemma np_min_mem: "np_min xs = Inr m \<Longrightarrow> m \<in> set xs"
  using np_min_fold_mem by (cases xs) (auto simp: np_min_def)

lemma np_min_all_num:
  assumes "xs \<noteq> []" "\<forall>v\<in>set xs. np_isfinite v"
  shows "\<exists>m. np_min xs = Inr (Num m)"
proof -
  from np_min_total [OF assms(1)] obtain v where v: "np_min xs = Inr v" by blast
  from np_min_mem [OF v] assms(2) have "np_isfinite v" by blast
  then obtain m where "v = Num m" by (cases v) simp_all
  with v show ?thesis by blast
qed

lemma np_add_not_num: "\<not> np_isfinite v \<Longrightarrow> \<not> np_isfinite (np_add v w)"
  by (cases v; cases w) simp_all

lemma np_add_num: "np_add (Num a) (Num k) = Num (a + k)"
  by simp





text \<open>Where every logarithm is taken of a positive density, the minimum is a number.\<close>

lemma fe_array_positive:
  assumes "1 \<le> nbins"
    and "genfe \<Longrightarrow> \<forall>x\<in>set (linspace 0 1 nbins). 0 < kde first x"
    and "\<not> genfe \<Longrightarrow> \<forall>x\<in>set (linspace (- 1) 1 (2 * nbins)).
           (x < - (4 / 100) \<longrightarrow> 0 < kde (map2 (-) second first) x) \<and>
           (x > 4 / 100 \<longrightarrow> 0 < kde (map2 (-) first second) x)"
  shows "\<exists>m. np_min (fe_array kde genfe first second nbins) = Inr (Num m)"
proof -
  from assms(1) have "0 < length (fe_array kde genfe first second nbins)"
    by (simp add: fe_array_length)
  then have ne: "fe_array kde genfe first second nbins \<noteq> []" by simp
  have "\<forall>v\<in>set (fe_array kde genfe first second nbins). np_isfinite v"
  proof (cases genfe)
    case True
    with assms(2) show ?thesis
      by (auto simp: fe_array_def fe_val_cases)
  next
    case False
    with assms(3) show ?thesis
      by (auto simp: fe_array_def fed_val_def fe_val_cases)
  qed
  from np_min_all_num [OF ne this] show ?thesis .
qed

subsection \<open>Densities that are not positive\<close>

text \<open>
  Claim C4, as amended. In both modes no error is signalled for a density that is 0 or
  negative: with \<open>nbins\<close> at least 1 the profile is returned for any density function. Where
  the logarithm is taken of a density 0 the energy before the shift is \<open>+inf\<close>, where it is
  taken of a negative density the energy is \<open>nan\<close>, and an entry that is not finite before
  the shift is not finite in the profile returned.
\<close>

theorem log_of_nonpositive_density:
  assumes "1 \<le> nbins"
  shows "\<exists>e. free_energy kde genfe first second nbins = Inr e \<and>
      length e = length (fe_array kde genfe first second nbins) \<and>
      (\<forall>i<length e. \<not> np_isfinite (fe_array kde genfe first second nbins ! i) \<longrightarrow> \<not> np_isfinite (e ! i)) \<and>
      (genfe \<longrightarrow> (\<forall>i<nat nbins.
          let d = kde first (linspace 0 1 nbins ! i)
          in (d = 0 \<longrightarrow> fe_array kde genfe first second nbins ! i = PosInf) \<and>
             (d < 0 \<longrightarrow> fe_array kde genfe first second nbins ! i = NaN))) \<and>
      (\<not> genfe \<longrightarrow> (\<forall>i<nat (2 * nbins).
          let x = linspace (- 1) 1 (2 * nbins) ! i;
              d3 = kde (map2 (-) first second) x;
              d4 = kde (map2 (-) second first) x
          in (x < - (4 / 100) \<longrightarrow>
                (d4 = 0 \<longrightarrow> fe_array kde genfe first second nbins ! i = PosInf) \<and>
                (d4 < 0 \<longrightarrow> fe_array kde genfe first second nbins ! i = NaN)) \<and>
             (x > 4 / 100 \<longrightarrow>
                (d3 = 0 \<longrightarrow> fe_array kde genfe first second nbins ! i = PosInf) \<and>
                (d3 < 0 \<longrightarrow> fe_array kde genfe first second nbins ! i = NaN))))"
proof -
  let ?fe = "fe_array kde genfe first second nbins"
  from assms have "0 < length ?fe" by (simp add: fe_array_length)
  then have "?fe \<noteq> []" by simp
  from np_min_total [OF this] obtain minfe where m: "np_min ?fe = Inr minfe" by blast
  let ?e = "map (\<lambda>v. np_add v (np_neg minfe)) ?fe"
  have e: "free_energy kde genfe first second nbins = Inr ?e"
    by (simp add: free_energy_def shift_zero_def m)
  have stay: "\<forall>i<length ?e. \<not> np_isfinite (?fe ! i) \<longrightarrow> \<not> np_isfinite (?e ! i)"
    by (simp add: np_add_not_num)
  have single: "\<forall>i<nat nbins.
          let d = kde first (linspace 0 1 nbins ! i)
          in (d = 0 \<longrightarrow> ?fe ! i = PosInf) \<and> (d < 0 \<longrightarrow> ?fe ! i = NaN)" if genfe
    using that by (simp add: fe_array_nth_fe fe_val_cases Let_def)
  have diff: "\<forall>i<nat (2 * nbins).
          let x = linspace (- 1) 1 (2 * nbins) ! i;
              d3 = kde (map2 (-) first second) x;
              d4 = kde (map2 (-) second first) x
          in (x < - (4 / 100) \<longrightarrow> (d4 = 0 \<longrightarrow> ?fe ! i = PosInf) \<and> (d4 < 0 \<longrightarrow> ?fe ! i = NaN)) \<and>
             (x > 4 / 100 \<longrightarrow> (d3 = 0 \<longrightarrow> ?fe ! i = PosInf) \<and> (d3 < 0 \<longrightarrow> ?fe ! i = NaN))"
    if "\<not> genfe"
    using that by (simp add: fe_array_nth_fed fed_val_def fe_val_cases Let_def)
  from e stay single diff show ?thesis
    by (intro exI [of _ ?e] conjI impI) simp_all
qed

theorem log_of_nonpositive_density_witness:
  "(1::int) \<le> 2 \<and> (0::nat) < nat 2 \<and>
   (\<lambda>(s::real list) (x::real). if x < 1 / 2 then 0 else 1 :: real) [16 / 25] (linspace 0 1 2 ! 0) = 0 \<and>
   fe_array (\<lambda>s x. if x < 1 / 2 then 0 else 1) True [16 / 25] [9 / 25] 2 ! 0 = PosInf \<and>
   free_energy (\<lambda>s x. if x < 1 / 2 then 0 else 1) True [16 / 25] [9 / 25] 2 = Inr [PosInf, Num 0]"
proof -
  let ?kde = "\<lambda>(s::real list) (x::real). if x < 1 / 2 then 0 else 1 :: real"
  have a: "(1::int) \<le> 2" by simp
  have b: "(0::nat) < nat 2" by simp
  have c: "?kde [16 / 25] (linspace 0 1 2 ! 0) = 0"
    by (simp add: linspace_def upt_rec)
  from log_of_nonpositive_density [OF a, of ?kde True "[16 / 25]" "[9 / 25]"] b
  have "let d = ?kde [16 / 25] (linspace 0 1 2 ! 0)
        in (d = 0 \<longrightarrow> fe_array ?kde True [16 / 25] [9 / 25] 2 ! 0 = PosInf) \<and>
           (d < 0 \<longrightarrow> fe_array ?kde True [16 / 25] [9 / 25] 2 ! 0 = NaN)"
    by blast
  with c have d: "fe_array ?kde True [16 / 25] [9 / 25] 2 ! 0 = PosInf"
    by (simp add: Let_def)
  have e: "free_energy ?kde True [16 / 25] [9 / 25] 2 = Inr [PosInf, Num 0]"
    by (simp add: fe_eval upt_rec)
  from a b c d e show ?thesis by blast
qed

text \<open>
  Claim C4 as stated fails: with a density that is 0 at the grid point 0, the computation
  raises nothing and returns a profile whose first entry is \<open>+inf\<close>.
\<close>

theorem log_of_zero_density_no_error:
  "linspace 0 1 2 = [0, 1] \<and>
   (\<lambda>(s::real list) (x::real). if x < 1 / 2 then 0 else 1 :: real) [16 / 25] 0 = 0 \<and>
   free_energy (\<lambda>s x. if x < 1 / 2 then 0 else 1) True [16 / 25] [9 / 25] 2 = Inr [PosInf, Num 0] \<and>
   \<not> np_isfinite PosInf"
  by (simp add: fe_eval upt_rec)

section \<open>Fractions of species: proofs\<close>

lemma species_sum:
  assumes "0 < h3o" "0 < k1" "0 < k2"
  shows "(case species h3o k1 k2 of (a, b, c) \<Rightarrow> a + b + c) = 1"
proof -
  have "0 < h3o * h3o + h3o * k1 + k1 * k2"
    using assms by (simp add: add_pos_pos)
  then show ?thesis
    by (simp add: species_def add_divide_distrib [symmetric])
qed

text \<open>
  Claim C10. At every pH value the three fractions computed in the loop body add up to 1,
  over the real numbers: the hydronium concentration \<open>10**(-ph)\<close> and the two acid
  constants are positive, so the common denominator is not 0.
\<close>

theorem hh_fractions_sum:
  "(case hh_fractions ph of (h2co3, hco3, co3) \<Rightarrow> h2co3 + hco3 + co3) = 1"
  unfolding hh_fractions_def
  by (rule species_sum) (simp_all add: ka1_def ka2_def)

end
